theory Spec2Isabelle
  imports Main
begin

section \<open>The fixed-window rate limiter of the server middleware\<close>

text \<open>
  The source is the \<^verbatim>\<open>rateLimit\<close> middleware factory:
  \<^verbatim>\<open>
  const rateLimit = (windowMs = 15 * 60 * 1000, max = 100) => {
    const requests = new Map();
    return (req, res, next) => {
      const key = req.ip || req.connection.remoteAddress;
      const now = Date.now();
      if (!requests.has(key)) {
        requests.set(key, { count: 1, resetTime: now + windowMs });
        return next();
      }
      const requestData = requests.get(key);
      if (now > requestData.resetTime) {
        requests.set(key, { count: 1, resetTime: now + windowMs });
        return next();
      }
      if (requestData.count >= max) {
        return res.status(429).json(
          formatErrorResponse('Too many requests', 'RATE_LIMIT_EXCEEDED'));
      }
      requestData.count++;
      next();
    };
  };
  \<close>
  The closure's \<^verbatim>\<open>Map\<close> is passed explicitly and returned updated. One evaluation is
  modelled from the point where \<^verbatim>\<open>key\<close> and \<^verbatim>\<open>now\<close> are bound: the key (the value of
  \<^verbatim>\<open>req.ip || req.connection.remoteAddress\<close>, a string) and the clock reading (the value
  of \<^verbatim>\<open>Date.now()\<close>) are its two inputs. Timestamps, durations and counts are integers
  (millisecond timestamps are far below \<open>2^53\<close>, where the arithmetic of JavaScript numbers
  is exact). Calling \<^verbatim>\<open>next()\<close> is the decision \<open>ADMIT\<close>, answering with status 429 is
  \<open>REJECT\<close>; what the host's \<^verbatim>\<open>next\<close> and \<^verbatim>\<open>res\<close> do with the decision is not part of
  the model.
\<close>

subsection \<open>Data model\<close>

record WindowCounter =
  count :: int
  resetTime :: int

type_synonym requests = "string \<rightharpoonup> WindowCounter"

datatype decision = ADMIT | REJECT

text \<open>Reading a property of \<^verbatim>\<open>undefined\<close> raises a \<^verbatim>\<open>TypeError\<close> in JavaScript.\<close>

datatype error = TypeError

subsection \<open>Operations\<close>

definition has :: "requests \<Rightarrow> string \<Rightarrow> bool" where
  "has m k = (m k \<noteq> None)"

text \<open>
  One evaluation of the middleware. \<^verbatim>\<open>requests.get(key)\<close> yields \<^verbatim>\<open>undefined\<close> for a
  missing key, and \<^verbatim>\<open>requestData.resetTime\<close> would then raise: that branch is kept.
  \<^verbatim>\<open>requestData.count++\<close> mutates the object held by the map, which is the update of the
  entry under \<open>key\<close> (every stored object is a fresh literal, held under one key only).
\<close>

definition rateLimit ::
  "int \<Rightarrow> int \<Rightarrow> requests \<Rightarrow> string \<Rightarrow> int \<Rightarrow> error + (decision \<times> requests)" where
  "rateLimit windowMs max' requests key now =
     (if \<not> has requests key
      then Inr (ADMIT, requests(key \<mapsto> \<lparr>count = 1, resetTime = now + windowMs\<rparr>))
      else
        (case requests key of
           None \<Rightarrow> Inl TypeError
         | Some requestData \<Rightarrow>
             if now > resetTime requestData
             then Inr (ADMIT, requests(key \<mapsto> \<lparr>count = 1, resetTime = now + windowMs\<rparr>))
             else if count requestData \<ge> max'
             then Inr (REJECT, requests)
             else Inr (ADMIT, requests(key \<mapsto> requestData\<lparr>count := count requestData + 1\<rparr>))))"

text \<open>
  The host serves a sequence of requests, each a pair of key and clock reading, with one
  middleware instance: the map of one call is the map the next call starts from. An
  exception would abort the sequence.
\<close>

fun serve ::
  "int \<Rightarrow> int \<Rightarrow> requests \<Rightarrow> (string \<times> int) list \<Rightarrow> error + (decision list \<times> requests)" where
  "serve windowMs max' requests [] = Inr ([], requests)"
| "serve windowMs max' requests ((key, now) # calls) =
     (case rateLimit windowMs max' requests key now of
        Inl e \<Rightarrow> Inl e
      | Inr (d, requests') \<Rightarrow>
          (case serve windowMs max' requests' calls of
             Inl e \<Rightarrow> Inl e
           | Inr (ds, requests'') \<Rightarrow> Inr (d # ds, requests'')))"

text \<open>The timestamps of the admitted requests of one key, in the order they were served.\<close>

fun admitted :: "string \<Rightarrow> (string \<times> int) list \<Rightarrow> decision list \<Rightarrow> int list" where
  "admitted k ((key, now) # calls) (d # ds) =
     (if key = k \<and> d = ADMIT then now # admitted k calls ds else admitted k calls ds)"
| "admitted k _ _ = []"

text \<open>How many of the given timestamps lie in the closed interval from \<open>a\<close> to \<open>a + len\<close>.\<close>

definition in_interval :: "int \<Rightarrow> int \<Rightarrow> int list \<Rightarrow> nat" where
  "in_interval a len ts = length (filter (\<lambda>t. a \<le> t \<and> t \<le> a + len) ts)"

text \<open>
  A request of key \<open>k\<close> at time \<open>t\<close> begins a window when the key has no counter or its
  counter has expired (the test \<^verbatim>\<open>now > requestData.resetTime\<close>).
\<close>

definition window_begins :: "requests \<Rightarrow> string \<Rightarrow> int \<Rightarrow> bool" where
  "window_begins requests k t = (case requests k of None \<Rightarrow> True | Some c \<Rightarrow> t > resetTime c)"

text \<open>The decisions given to the requests of one key, in the order they were served.\<close>

fun decisions_for :: "string \<Rightarrow> (string \<times> int) list \<Rightarrow> decision list \<Rightarrow> decision list" where
  "decisions_for k ((key, now) # calls) (d # ds) =
     (if key = k then d # decisions_for k calls ds else decisions_for k calls ds)"
| "decisions_for k _ _ = []"

text \<open>Every stored counter has a count from 1 to \<open>max\<close>.\<close>

definition counts_bounded :: "int \<Rightarrow> requests \<Rightarrow> bool" where
  "counts_bounded max' requests =
     (\<forall>k c. requests k = Some c \<longrightarrow> 1 \<le> count c \<and> count c \<le> max')"

text \<open>
  The invariant behind the bound on bursts, for the admitted timestamps \<open>adm\<close> of one key and
  the counter \<open>co\<close> the key has: without a counter nothing was admitted; with a counter,
  whose window began at \<open>resetTime - windowMs\<close>, the count is at most the maximum, the
  window's first request is among the admitted ones, none was admitted after the reset time,
  the admissions since the window began are at most \<open>count\<close> (those after its first instant
  at most \<open>count - 1\<close>), the admissions of the \<open>windowMs\<close> milliseconds before the window
  began are at most \<open>max - 1\<close>, and every closed interval of \<open>windowMs\<close> milliseconds holds at
  most \<open>2 * max - 1\<close> admissions.
\<close>

definition seam_inv :: "int \<Rightarrow> int \<Rightarrow> int list \<Rightarrow> WindowCounter option \<Rightarrow> bool" where
  "seam_inv windowMs max' adm co =
     (case co of
        None \<Rightarrow> adm = []
      | Some c \<Rightarrow>
          count c \<le> max' \<and>
          resetTime c - windowMs \<in> set adm \<and>
          (\<forall>u\<in>set adm. u \<le> resetTime c) \<and>
          int (length (filter (\<lambda>u. resetTime c - windowMs \<le> u) adm)) \<le> count c \<and>
          int (length (filter (\<lambda>u. resetTime c - windowMs < u) adm)) \<le> count c - 1 \<and>
          int (length (filter (\<lambda>u. resetTime c - windowMs - windowMs \<le> u \<and>
                                   u < resetTime c - windowMs) adm)) \<le> max' - 1 \<and>
          (\<forall>a. int (in_interval a windowMs adm) \<le> 2 * max' - 1))"

section \<open>Basic facts\<close>

lemma rateLimit_absent:
  "requests key = None \<Longrightarrow>
   rateLimit windowMs max' requests key now =
     Inr (ADMIT, requests(key \<mapsto> \<lparr>count = 1, resetTime = now + windowMs\<rparr>))"
  by (simp add: rateLimit_def has_def)

lemma rateLimit_present:
  "requests key = Some c \<Longrightarrow>
   rateLimit windowMs max' requests key now =
     (if now > resetTime c
      then Inr (ADMIT, requests(key \<mapsto> \<lparr>count = 1, resetTime = now + windowMs\<rparr>))
      else if count c \<ge> max' then Inr (REJECT, requests)
      else Inr (ADMIT, requests(key \<mapsto> c\<lparr>count := count c + 1\<rparr>)))"
  by (simp add: rateLimit_def has_def)

lemma rateLimit_returns:
  "\<exists>d requests'. rateLimit windowMs max' requests key now = Inr (d, requests')"
proof (cases "requests key")
  case None
  then show ?thesis by (simp add: rateLimit_absent)
next
  case (Some c)
  then show ?thesis by (simp add: rateLimit_present)
qed

lemma rateLimit_other_key:
  assumes "rateLimit windowMs max' requests key now = Inr (d, requests')" and "k \<noteq> key"
  shows "requests' k = requests k"
proof (cases "requests key")
  case None
  with assms show ?thesis by (auto simp: rateLimit_absent)
next
  case (Some c)
  with assms show ?thesis by (auto simp: rateLimit_present split: if_splits)
qed

lemma serve_returns: "\<exists>ds requests'. serve windowMs max' requests calls = Inr (ds, requests')"
proof (induction calls arbitrary: requests)
  case Nil
  show ?case by simp
next
  case (Cons c calls)
  obtain key now where c: "c = (key, now)" by (cases c)
  obtain d s1 where r: "rateLimit windowMs max' requests key now = Inr (d, s1)"
    using rateLimit_returns by blast
  obtain ds s2 where "serve windowMs max' s1 calls = Inr (ds, s2)"
    using Cons.IH by blast
  with c r show ?case by simp
qed

lemma serve_Cons:
  "serve windowMs max' requests ((key, now) # calls) = Inr (ds, s2) \<longleftrightarrow>
   (\<exists>d s1 ds'. rateLimit windowMs max' requests key now = Inr (d, s1) \<and>
      serve windowMs max' s1 calls = Inr (ds', s2) \<and> ds = d # ds')"
  by (auto split: sum.splits)

lemma serve_append:
  "serve windowMs max' requests xs = Inr (ds1, s1) \<Longrightarrow>
   serve windowMs max' s1 ys = Inr (ds2, s2) \<Longrightarrow>
   serve windowMs max' requests (xs @ ys) = Inr (ds1 @ ds2, s2)"
proof (induction xs arbitrary: requests ds1)
  case Nil
  then show ?case by simp
next
  case (Cons c xs)
  obtain key now where c: "c = (key, now)" by (cases c)
  from Cons.prems(1) obtain d s0 ds' where
    r: "rateLimit windowMs max' requests key now = Inr (d, s0)" and
    t: "serve windowMs max' s0 xs = Inr (ds', s1)" and ds1: "ds1 = d # ds'"
    unfolding c serve_Cons by blast
  have "serve windowMs max' s0 (xs @ ys) = Inr (ds' @ ds2, s2)"
    using Cons.IH [OF t Cons.prems(2)] .
  with r ds1 show ?case by (simp add: c)
qed

lemma serve_untouched:
  "serve windowMs max' requests calls = Inr (ds, s2) \<Longrightarrow> k \<notin> fst ` set calls \<Longrightarrow>
   s2 k = requests k"
proof (induction calls arbitrary: requests ds)
  case Nil
  then show ?case by simp
next
  case (Cons c calls)
  obtain key now where c: "c = (key, now)" by (cases c)
  from Cons.prems(1) obtain d s0 ds' where
    r: "rateLimit windowMs max' requests key now = Inr (d, s0)" and
    t: "serve windowMs max' s0 calls = Inr (ds', s2)"
    unfolding c serve_Cons by blast
  from Cons.prems(2) have ne: "k \<noteq> key" and rest: "k \<notin> fst ` set calls"
    by (auto simp: c)
  have "s2 k = s0 k" using Cons.IH [OF t rest] .
  also have "s0 k = requests k" using rateLimit_other_key [OF r ne] .
  finally show ?case .
qed

lemma serve_in_window:
  "requests k = Some c \<Longrightarrow> \<forall>t\<in>set ts. t \<le> resetTime c \<Longrightarrow>
   count c + int (length ts) \<le> max' \<Longrightarrow>
   serve windowMs max' requests (map (Pair k) ts) =
     Inr (replicate (length ts) ADMIT, requests(k \<mapsto> c\<lparr>count := count c + int (length ts)\<rparr>))"
proof (induction ts arbitrary: requests c)
  case Nil
  then have "requests(k \<mapsto> c) = requests" by (simp add: map_upd_triv)
  then show ?case by simp
next
  case (Cons t ts)
  from Cons.prems have r: "rateLimit windowMs max' requests k t =
      Inr (ADMIT, requests(k \<mapsto> c\<lparr>count := count c + 1\<rparr>))"
    by (simp add: rateLimit_present)
  have "serve windowMs max' (requests(k \<mapsto> c\<lparr>count := count c + 1\<rparr>)) (map (Pair k) ts) =
      Inr (replicate (length ts) ADMIT,
           (requests(k \<mapsto> c\<lparr>count := count c + 1\<rparr>))
             (k \<mapsto> (c\<lparr>count := count c + 1\<rparr>)
                \<lparr>count := count (c\<lparr>count := count c + 1\<rparr>) + int (length ts)\<rparr>))"
    by (rule Cons.IH) (use Cons.prems in auto)
  then have "serve windowMs max' (requests(k \<mapsto> c\<lparr>count := count c + 1\<rparr>)) (map (Pair k) ts) =
      Inr (replicate (length ts) ADMIT,
           requests(k \<mapsto> c\<lparr>count := count c + int (length (t # ts))\<rparr>))"
    by (simp add: add.assoc)
  with r show ?case by (simp add: fun_upd_def)
qed

lemma serve_full_window:
  "requests k = Some c \<Longrightarrow> \<forall>t\<in>set ts. t \<le> resetTime c \<Longrightarrow> max' \<le> count c \<Longrightarrow>
   serve windowMs max' requests (map (Pair k) ts) = Inr (replicate (length ts) REJECT, requests)"
proof (induction ts)
  case Nil
  show ?case by simp
next
  case (Cons t ts)
  then have "rateLimit windowMs max' requests k t = Inr (REJECT, requests)"
    by (simp add: rateLimit_present)
  with Cons show ?case by simp
qed

lemma rateLimit_begins:
  "window_begins requests k t \<Longrightarrow>
   rateLimit windowMs max' requests k t =
     Inr (ADMIT, requests(k \<mapsto> \<lparr>count = 1, resetTime = t + windowMs\<rparr>))"
  by (cases "requests k") (simp_all add: window_begins_def rateLimit_absent rateLimit_present)

lemma serve_new_window:
  assumes "window_begins requests k t" and "\<forall>u\<in>set ts. u \<le> t + windowMs"
    and "1 + int (length ts) \<le> max'"
  shows "serve windowMs max' requests (map (Pair k) (t # ts)) =
     Inr (replicate (Suc (length ts)) ADMIT,
          requests(k \<mapsto> \<lparr>count = 1 + int (length ts), resetTime = t + windowMs\<rparr>))"
proof -
  have "serve windowMs max' (requests(k \<mapsto> \<lparr>count = 1, resetTime = t + windowMs\<rparr>)) (map (Pair k) ts) =
      Inr (replicate (length ts) ADMIT,
           (requests(k \<mapsto> \<lparr>count = 1, resetTime = t + windowMs\<rparr>))
             (k \<mapsto> \<lparr>count = 1, resetTime = t + windowMs\<rparr>
                \<lparr>count := count \<lparr>count = 1, resetTime = t + windowMs\<rparr> + int (length ts)\<rparr>))"
    by (rule serve_in_window) (use assms in auto)
  then have "serve windowMs max' (requests(k \<mapsto> \<lparr>count = 1, resetTime = t + windowMs\<rparr>)) (map (Pair k) ts) =
      Inr (replicate (length ts) ADMIT,
           requests(k \<mapsto> \<lparr>count = 1 + int (length ts), resetTime = t + windowMs\<rparr>))"
    by simp
  with rateLimit_begins [OF assms(1)] show ?thesis by simp
qed

lemma rateLimit_local:
  assumes "s key = s0 key"
    and "rateLimit windowMs max' s key now = Inr (d, s1)"
    and "rateLimit windowMs max' s0 key now = Inr (d0, s01)"
  shows "d = d0 \<and> s1 key = s01 key"
proof (cases "s key")
  case None
  with assms show ?thesis by (auto simp: rateLimit_absent)
next
  case (Some c)
  with assms(1) have "s0 key = Some c" by simp
  with Some assms(2,3) show ?thesis
    by (auto simp: rateLimit_present split: if_splits)
qed

lemma serve_without:
  "\<forall>k. k \<noteq> k1 \<longrightarrow> s k = s0 k \<Longrightarrow>
   serve windowMs max' s calls = Inr (ds, s') \<Longrightarrow>
   serve windowMs max' s0 (filter (\<lambda>c. fst c \<noteq> k1) calls) = Inr (ds0, s0') \<Longrightarrow>
   k \<noteq> k1 \<Longrightarrow>
   s' k = s0' k \<and>
   decisions_for k calls ds = decisions_for k (filter (\<lambda>c. fst c \<noteq> k1) calls) ds0"
proof (induction calls arbitrary: s s0 ds ds0)
  case Nil
  then show ?case by simp
next
  case (Cons c calls)
  obtain key now where c: "c = (key, now)" by (cases c)
  from Cons.prems(2) obtain d s1 ds' where
    r: "rateLimit windowMs max' s key now = Inr (d, s1)" and
    t: "serve windowMs max' s1 calls = Inr (ds', s')" and ds: "ds = d # ds'"
    unfolding c serve_Cons by blast
  show ?case
  proof (cases "key = k1")
    case True
    have agree: "\<forall>k. k \<noteq> k1 \<longrightarrow> s1 k = s0 k"
      using rateLimit_other_key [OF r] Cons.prems(1) True by simp
    from Cons.prems(3) True
    have t0: "serve windowMs max' s0 (filter (\<lambda>c. fst c \<noteq> k1) calls) = Inr (ds0, s0')"
      by (simp add: c)
    from Cons.IH [OF agree t t0 Cons.prems(4)] True Cons.prems(4) show ?thesis
      by (auto simp: c ds)
  next
    case False
    with Cons.prems(3)
    have "serve windowMs max' s0 ((key, now) # filter (\<lambda>c. fst c \<noteq> k1) calls) = Inr (ds0, s0')"
      by (simp add: c)
    then obtain d0 s01 ds0' where
      r0: "rateLimit windowMs max' s0 key now = Inr (d0, s01)" and
      t0: "serve windowMs max' s01 (filter (\<lambda>c. fst c \<noteq> k1) calls) = Inr (ds0', s0')" and
      ds0: "ds0 = d0 # ds0'"
      unfolding serve_Cons by blast
    from Cons.prems(1) False have same: "s key = s0 key" by simp
    from rateLimit_local [OF same r r0] have d: "d = d0" and k: "s1 key = s01 key" by simp_all
    have agree: "\<forall>k. k \<noteq> k1 \<longrightarrow> s1 k = s01 k"
    proof (intro allI impI)
      fix j assume j: "j \<noteq> k1"
      show "s1 j = s01 j"
      proof (cases "j = key")
        case True
        with k show ?thesis by simp
      next
        case False
        from rateLimit_other_key [OF r False] rateLimit_other_key [OF r0 False]
          Cons.prems(1) j show ?thesis by simp
      qed
    qed
    from Cons.IH [OF agree t t0 Cons.prems(4)] False show ?thesis
      by (simp add: c ds ds0 d)
  qed
qed

lemma rateLimit_keeps_bounds:
  assumes "1 \<le> max'" and "counts_bounded max' s"
    and "rateLimit windowMs max' s key now = Inr (d, s1)"
  shows "counts_bounded max' s1"
  unfolding counts_bounded_def
proof (intro allI impI)
  fix k c assume k: "s1 k = Some c"
  show "1 \<le> count c \<and> count c \<le> max'"
  proof (cases "k = key")
    case False
    from rateLimit_other_key [OF assms(3) False] k have "s k = Some c" by simp
    with assms(2) show ?thesis by (simp add: counts_bounded_def)
  next
    case True
    show ?thesis
    proof (cases "s key")
      case None
      with assms(1,3) k True show ?thesis by (auto simp: rateLimit_absent)
    next
      case (Some c0)
      with assms(2) have "1 \<le> count c0 \<and> count c0 \<le> max'" by (simp add: counts_bounded_def)
      with Some assms(1,3) k True show ?thesis
        by (auto simp: rateLimit_present split: if_splits)
    qed
  qed
qed

lemma serve_keeps_bounds:
  "1 \<le> max' \<Longrightarrow> counts_bounded max' s \<Longrightarrow> serve windowMs max' s calls = Inr (ds, s') \<Longrightarrow>
   counts_bounded max' s'"
proof (induction calls arbitrary: s ds)
  case Nil
  then show ?case by simp
next
  case (Cons c calls)
  obtain key now where c: "c = (key, now)" by (cases c)
  from Cons.prems(3) obtain d s1 ds' where
    r: "rateLimit windowMs max' s key now = Inr (d, s1)" and
    t: "serve windowMs max' s1 calls = Inr (ds', s')"
    unfolding c serve_Cons by blast
  from rateLimit_keeps_bounds [OF Cons.prems(1,2) r] have "counts_bounded max' s1" .
  from Cons.IH [OF Cons.prems(1) this t] show ?case .
qed

lemma admit_changes_map:
  assumes "0 < windowMs" and "rateLimit windowMs max' s key now = Inr (ADMIT, s1)"
  shows "s1 key \<noteq> s key"
proof (cases "s key")
  case None
  with assms show ?thesis by (auto simp: rateLimit_absent)
next
  case (Some c)
  show ?thesis
  proof (cases "now > resetTime c")
    case True
    with Some assms have "s1 key = Some \<lparr>count = 1, resetTime = now + windowMs\<rparr>"
      by (auto simp: rateLimit_present)
    moreover have "\<lparr>count = 1, resetTime = now + windowMs\<rparr> \<noteq> c"
    proof
      assume "\<lparr>count = 1, resetTime = now + windowMs\<rparr> = c"
      then have "resetTime \<lparr>count = 1, resetTime = now + windowMs\<rparr> = resetTime c"
        by (rule arg_cong)
      with True assms(1) show False by simp
    qed
    ultimately show ?thesis using Some by simp
  next
    case False
    with Some assms have "s1 key = Some (c\<lparr>count := count c + 1\<rparr>)"
      by (auto simp: rateLimit_present split: if_splits)
    moreover have "c\<lparr>count := count c + 1\<rparr> \<noteq> c"
    proof
      assume "c\<lparr>count := count c + 1\<rparr> = c"
      then have "count (c\<lparr>count := count c + 1\<rparr>) = count c" by (rule arg_cong)
      then show False by simp
    qed
    ultimately show ?thesis using Some by simp
  qed
qed

subsection \<open>Bursts at the seam of two windows\<close>

lemma filter_length_mono:
  "(\<And>x. x \<in> set xs \<Longrightarrow> P x \<Longrightarrow> Q x) \<Longrightarrow> length (filter P xs) \<le> length (filter Q xs)"
  by (induction xs) auto

lemma filter_length_split:
  "(\<And>x. x \<in> set xs \<Longrightarrow> P x \<Longrightarrow> Q x \<or> R x) \<Longrightarrow>
   length (filter P xs) \<le> length (filter Q xs) + length (filter R xs)"
  by (induction xs) auto

lemma filter_length_none:
  "(\<And>x. x \<in> set xs \<Longrightarrow> \<not> P x) \<Longrightarrow> length (filter P xs) = 0"
  by (induction xs) auto

lemma in_interval_snoc:
  assumes "\<forall>a. int (in_interval a len hist) \<le> B"
    and "int (length (filter (\<lambda>u. t - len \<le> u) hist)) + 1 \<le> B"
  shows "int (in_interval a len (hist @ [t])) \<le> B"
proof (cases "a \<le> t \<and> t \<le> a + len")
  case False
  then have "in_interval a len (hist @ [t]) = in_interval a len hist"
    by (auto simp: in_interval_def)
  with assms(1) show ?thesis by simp
next
  case True
  have "length (filter (\<lambda>u. a \<le> u \<and> u \<le> a + len) hist) \<le>
      length (filter (\<lambda>u. t - len \<le> u) hist)"
    by (rule filter_length_mono) (use True in auto)
  moreover have "in_interval a len (hist @ [t]) =
      length (filter (\<lambda>u. a \<le> u \<and> u \<le> a + len) hist) + 1"
    using True by (simp add: in_interval_def)
  ultimately show ?thesis using assms(2) by linarith
qed

lemma seam_create:
  assumes "0 \<le> windowMs" and "1 \<le> max'"
  shows "seam_inv windowMs max' [t] (Some \<lparr>count = 1, resetTime = t + windowMs\<rparr>)"
  using assms by (simp add: seam_inv_def in_interval_def)

lemma seam_reset:
  assumes "0 \<le> windowMs" and "1 \<le> max'" and "seam_inv windowMs max' hist (Some c)"
    and "t > resetTime c"
  shows "seam_inv windowMs max' (hist @ [t]) (Some \<lparr>count = 1, resetTime = t + windowMs\<rparr>)"
proof -
  from assms(3) have cnt: "count c \<le> max'"
    and old: "\<forall>u\<in>set hist. u \<le> resetTime c"
    and after: "int (length (filter (\<lambda>u. resetTime c - windowMs < u) hist)) \<le> count c - 1"
    and all: "\<forall>a. int (in_interval a windowMs hist) \<le> 2 * max' - 1"
    by (simp_all add: seam_inv_def)
  have before: "\<And>u. u \<in> set hist \<Longrightarrow> u < t" using old assms(4) by fastforce
  have 1: "length (filter (\<lambda>u. t \<le> u) hist) = 0"
    by (rule filter_length_none) (use before in fastforce)
  have 2: "length (filter (\<lambda>u. t < u) hist) = 0"
    by (rule filter_length_none) (use before in fastforce)
  have "length (filter (\<lambda>u. t - windowMs \<le> u) hist) \<le>
      length (filter (\<lambda>u. resetTime c - windowMs < u) hist)"
    by (rule filter_length_mono) (use assms(4) in auto)
  with after cnt have 3: "int (length (filter (\<lambda>u. t - windowMs \<le> u) hist)) \<le> max' - 1"
    by linarith
  have "length (filter (\<lambda>u. t - windowMs \<le> u \<and> u < t) hist) \<le>
      length (filter (\<lambda>u. t - windowMs \<le> u) hist)"
    by (rule filter_length_mono) simp
  with 3 have 4: "int (length (filter (\<lambda>u. t - windowMs \<le> u \<and> u < t) hist)) \<le> max' - 1"
    by linarith
  have 5: "\<forall>a. int (in_interval a windowMs (hist @ [t])) \<le> 2 * max' - 1"
  proof
    fix a
    show "int (in_interval a windowMs (hist @ [t])) \<le> 2 * max' - 1"
      by (rule in_interval_snoc [OF all]) (use 3 assms(2) in linarith)
  qed
  have 6: "\<forall>u\<in>set (hist @ [t]). u \<le> t + windowMs"
    using before assms(1) by fastforce
  show ?thesis
    unfolding seam_inv_def using assms(2) 1 2 4 5 6 by simp
qed

lemma seam_incr:
  assumes "seam_inv windowMs max' hist (Some c)" and "\<forall>u\<in>set hist. u \<le> t"
    and "t \<le> resetTime c" and "count c < max'"
  shows "seam_inv windowMs max' (hist @ [t]) (Some (c\<lparr>count := count c + 1\<rparr>))"
proof -
  let ?t0 = "resetTime c - windowMs"
  from assms(1) have start: "?t0 \<in> set hist"
    and old: "\<forall>u\<in>set hist. u \<le> resetTime c"
    and from0: "int (length (filter (\<lambda>u. ?t0 \<le> u) hist)) \<le> count c"
    and after: "int (length (filter (\<lambda>u. ?t0 < u) hist)) \<le> count c - 1"
    and prev: "int (length (filter (\<lambda>u. ?t0 - windowMs \<le> u \<and> u < ?t0) hist)) \<le> max' - 1"
    and all: "\<forall>a. int (in_interval a windowMs hist) \<le> 2 * max' - 1"
    by (simp_all add: seam_inv_def)
  from start assms(2) have t0: "?t0 \<le> t" by blast
  have "length (filter (\<lambda>u. t - windowMs \<le> u) hist) \<le>
      length (filter (\<lambda>u. ?t0 - windowMs \<le> u \<and> u < ?t0) hist) +
      length (filter (\<lambda>u. ?t0 \<le> u) hist)"
    by (rule filter_length_split) (use t0 in auto)
  with prev from0 assms(4)
  have 3: "int (length (filter (\<lambda>u. t - windowMs \<le> u) hist)) + 1 \<le> 2 * max' - 1"
    by linarith
  have 5: "\<forall>a. int (in_interval a windowMs (hist @ [t])) \<le> 2 * max' - 1"
  proof
    fix a
    show "int (in_interval a windowMs (hist @ [t])) \<le> 2 * max' - 1"
      by (rule in_interval_snoc [OF all 3])
  qed
  define h where "h = hist @ [t]"
  define c' where "c' = c\<lparr>count := count c + 1\<rparr>"
  have c': "count c' = count c + 1" "resetTime c' = resetTime c" by (simp_all add: c'_def)
  have i1: "count c' \<le> max'" using assms(4) c' by simp
  have i2: "resetTime c' - windowMs \<in> set h" using start c' by (simp add: h_def)
  have i3: "\<forall>u\<in>set h. u \<le> resetTime c'" using old assms(3) c' by (simp add: h_def)
  have i4: "int (length (filter (\<lambda>u. resetTime c' - windowMs \<le> u) h)) \<le> count c'"
    using from0 t0 c' by (simp add: h_def)
  have i5: "int (length (filter (\<lambda>u. resetTime c' - windowMs < u) h)) \<le> count c' - 1"
    using after c' by (simp add: h_def)
  have i6: "int (length (filter (\<lambda>u. resetTime c' - windowMs - windowMs \<le> u \<and>
      u < resetTime c' - windowMs) h)) \<le> max' - 1"
    using prev t0 c' by (simp add: h_def)
  have i7: "\<forall>a. int (in_interval a windowMs h) \<le> 2 * max' - 1"
    using 5 by (simp add: h_def)
  have "seam_inv windowMs max' h (Some c')"
    unfolding seam_inv_def using i1 i2 i3 i4 i5 i6 i7 by simp
  then show ?thesis by (simp add: h_def c'_def)
qed


lemma seam_step:
  assumes "0 \<le> windowMs" and "1 \<le> max'" and "seam_inv windowMs max' hist (s k)"
    and "\<forall>u\<in>set hist. u \<le> t"
    and "rateLimit windowMs max' s key t = Inr (d, s1)"
  shows "seam_inv windowMs max' (hist @ admitted k [(key, t)] [d]) (s1 k)"
proof (cases "key = k")
  case False
  then have "s1 k = s k" using rateLimit_other_key [OF assms(5)] by simp
  with False assms(3) show ?thesis by simp
next
  case True
  show ?thesis
  proof (cases "s k")
    case None
    with assms(3) have "hist = []" by (simp add: seam_inv_def)
    moreover from None True assms(5)
    have "d = ADMIT" and "s1 k = Some \<lparr>count = 1, resetTime = t + windowMs\<rparr>"
      by (auto simp: rateLimit_absent)
    ultimately show ?thesis using True seam_create [OF assms(1,2)] by simp
  next
    case (Some c)
    with assms(3) have inv: "seam_inv windowMs max' hist (Some c)" by simp
    consider (reset) "t > resetTime c"
      | (full) "t \<le> resetTime c" "max' \<le> count c"
      | (incr) "t \<le> resetTime c" "count c < max'"
      by linarith
    then show ?thesis
    proof cases
      case reset
      with Some True assms(5)
      have "d = ADMIT" and "s1 k = Some \<lparr>count = 1, resetTime = t + windowMs\<rparr>"
        by (auto simp: rateLimit_present)
      then show ?thesis using True seam_reset [OF assms(1,2) inv reset] by simp
    next
      case full
      with Some True assms(5) have "d = REJECT" and "s1 = s"
        by (auto simp: rateLimit_present)
      then show ?thesis using True assms(3) by simp
    next
      case incr
      with Some True assms(5)
      have "d = ADMIT" and "s1 k = Some (c\<lparr>count := count c + 1\<rparr>)"
        by (auto simp: rateLimit_present)
      then show ?thesis using True seam_incr [OF inv assms(4) incr] by simp
    qed
  qed
qed

lemma seam_serve:
  "0 \<le> windowMs \<Longrightarrow> 1 \<le> max' \<Longrightarrow> seam_inv windowMs max' hist (s k) \<Longrightarrow>
   \<forall>u\<in>set hist. \<forall>x\<in>set calls. u \<le> snd x \<Longrightarrow> sorted (map snd calls) \<Longrightarrow>
   serve windowMs max' s calls = Inr (ds, s') \<Longrightarrow>
   seam_inv windowMs max' (hist @ admitted k calls ds) (s' k)"
proof (induction calls arbitrary: s hist ds)
  case Nil
  then show ?case by simp
next
  case (Cons x calls)
  obtain key t where x: "x = (key, t)" by (cases x)
  from Cons.prems(6) obtain d s1 ds' where
    r: "rateLimit windowMs max' s key t = Inr (d, s1)" and
    rest: "serve windowMs max' s1 calls = Inr (ds', s')" and ds: "ds = d # ds'"
    unfolding x serve_Cons by blast
  from Cons.prems(4) have le: "\<forall>u\<in>set hist. u \<le> t" by (simp add: x)
  have inv: "seam_inv windowMs max' (hist @ admitted k [(key, t)] [d]) (s1 k)"
    using seam_step [OF Cons.prems(1,2,3) le r] .
  from Cons.prems(5) have later: "\<forall>y\<in>set calls. t \<le> snd y" and srt: "sorted (map snd calls)"
    by (auto simp: x)
  have "\<forall>u\<in>set (hist @ admitted k [(key, t)] [d]). \<forall>y\<in>set calls. u \<le> snd y"
    using Cons.prems(4) later by (auto simp: x)
  from Cons.IH [OF Cons.prems(1,2) inv this srt rest]
  have "seam_inv windowMs max' ((hist @ admitted k [(key, t)] [d]) @ admitted k calls ds') (s' k)" .
  moreover have "(hist @ admitted k [(key, t)] [d]) @ admitted k calls ds' =
      hist @ admitted k (x # calls) ds"
    by (simp add: x ds)
  ultimately show ?case by simp
qed

lemma seam_bound:
  assumes "0 \<le> windowMs" and "1 \<le> max'" and "sorted (map snd calls)"
    and "serve windowMs max' Map.empty calls = Inr (ds, s)"
  shows "int (in_interval a windowMs (admitted k calls ds)) \<le> 2 * max' - 1"
proof -
  have "seam_inv windowMs max' [] (Map.empty k)" by (simp add: seam_inv_def)
  from seam_serve [OF assms(1,2) this _ assms(3,4)]
  have inv: "seam_inv windowMs max' (admitted k calls ds) (s k)" by simp
  show ?thesis
  proof (cases "s k")
    case None
    with inv have "admitted k calls ds = []" by (simp add: seam_inv_def)
    with assms(2) show ?thesis by (simp add: in_interval_def)
  next
    case (Some c)
    with inv show ?thesis by (simp add: seam_inv_def)
  qed
qed

lemma admitted_all:
  "admitted k (map (Pair k) ts) (replicate (length ts) ADMIT) = ts"
  by (induction ts) auto

lemma admitted_append:
  "length ds1 = length xs \<Longrightarrow>
   admitted k (xs @ ys) (ds1 @ ds2) = admitted k xs ds1 @ admitted k ys ds2"
proof (induction k xs ds1 rule: admitted.induct)
  case (1 k key now calls d ds)
  then show ?case by simp
qed auto

lemma seam_attained:
  assumes "0 < windowMs" and "1 \<le> max'"
  shows "\<exists>calls ds s a.
      sorted (map snd calls) \<and> serve windowMs max' Map.empty calls = Inr (ds, s) \<and>
      int (in_interval a windowMs (admitted ''A'' calls ds)) = 2 * max' - 1"
proof -
  define n where "n = nat (max' - 1)"
  have n: "max' = 1 + int n" using assms(2) by (simp add: n_def)
  let ?w1 = "0 # replicate n windowMs"
  let ?w2 = "(windowMs + 1) # replicate n (windowMs + 1)"
  let ?s1 = "[''A'' \<mapsto> \<lparr>count = 1 + int n, resetTime = 0 + windowMs\<rparr>]"
  have b1: "window_begins Map.empty ''A'' 0" by (simp add: window_begins_def)
  have 1: "serve windowMs max' Map.empty (map (Pair ''A'') ?w1) =
      Inr (replicate (length ?w1) ADMIT, ?s1)"
    using serve_new_window [OF b1, of "replicate n windowMs" windowMs max'] n by simp
  have b2: "window_begins ?s1 ''A'' (windowMs + 1)" by (simp add: window_begins_def)
  have 2: "serve windowMs max' ?s1 (map (Pair ''A'') ?w2) =
      Inr (replicate (length ?w2) ADMIT,
           ?s1(''A'' \<mapsto> \<lparr>count = 1 + int n, resetTime = windowMs + 1 + windowMs\<rparr>))"
    using serve_new_window [OF b2, of "replicate n (windowMs + 1)" windowMs max'] n assms(1)
    by simp
  let ?calls = "map (Pair ''A'') ?w1 @ map (Pair ''A'') ?w2"
  let ?ds = "replicate (length ?w1) ADMIT @ replicate (length ?w2) ADMIT"
  have run: "serve windowMs max' Map.empty ?calls =
      Inr (?ds, ?s1(''A'' \<mapsto> \<lparr>count = 1 + int n, resetTime = windowMs + 1 + windowMs\<rparr>))"
    using serve_append [OF 1 2] .
  have adm: "admitted ''A'' ?calls ?ds = ?w1 @ ?w2"
    by (simp only: admitted_append length_map length_replicate admitted_all)
  have srt: "sorted (map snd ?calls)"
    using assms(1) by (auto simp: sorted_append comp_def)
  have "in_interval windowMs windowMs (?w1 @ ?w2) = n + (n + 1)"
    using assms(1) by (simp add: in_interval_def)
  then have "int (in_interval windowMs windowMs (admitted ''A'' ?calls ?ds)) = 2 * max' - 1"
    unfolding adm using n by simp
  with srt run show ?thesis by blast
qed

section \<open>The claims\<close>

text \<open>
  C9: for every key, every integer clock reading and every state of the map, one evaluation
  raises nothing and produces exactly one decision, which is ADMIT or REJECT.
\<close>

theorem rateLimit_never_throws:
  "\<exists>d requests'. rateLimit windowMs max' requests key now = Inr (d, requests') \<and>
     (d = ADMIT \<or> d = REJECT) \<and>
     (\<forall>e. rateLimit windowMs max' requests key now \<noteq> Inl e)"
proof -
  obtain d requests' where r: "rateLimit windowMs max' requests key now = Inr (d, requests')"
    using rateLimit_returns by blast
  have "d = ADMIT \<or> d = REJECT" by (cases d) simp_all
  with r show ?thesis by simp
qed

text \<open>
  C4: when an evaluation answers REJECT, the whole map is what it was before the call: the
  counter of the rejected key keeps its count and its reset time, and no counter of another
  key is created, changed or removed.
\<close>

theorem reject_leaves_map:
  "rateLimit windowMs max' requests key now = Inr (REJECT, requests') \<Longrightarrow> requests' = requests"
proof (cases "requests key")
  case None
  assume "rateLimit windowMs max' requests key now = Inr (REJECT, requests')"
  with None show ?thesis by (simp add: rateLimit_absent)
next
  case (Some c)
  assume "rateLimit windowMs max' requests key now = Inr (REJECT, requests')"
  with Some show ?thesis by (simp add: rateLimit_present split: if_splits)
qed

theorem reject_leaves_map_witness:
  "rateLimit 1000 2
     [''A'' \<mapsto> \<lparr>count = 2, resetTime = 1000\<rparr>, ''B'' \<mapsto> \<lparr>count = 1, resetTime = 1200\<rparr>] ''A'' 300 =
   Inr (REJECT,
     [''A'' \<mapsto> \<lparr>count = 2, resetTime = 1000\<rparr>, ''B'' \<mapsto> \<lparr>count = 1, resetTime = 1200\<rparr>])"
proof -
  obtain d s where r: "rateLimit 1000 2
      [''A'' \<mapsto> \<lparr>count = 2, resetTime = 1000\<rparr>, ''B'' \<mapsto> \<lparr>count = 1, resetTime = 1200\<rparr>] ''A'' 300 =
      Inr (d, s)"
    using rateLimit_returns by blast
  then have d: "d = REJECT"
    by (simp add: rateLimit_def has_def)
  have "s = [''A'' \<mapsto> \<lparr>count = 2, resetTime = 1000\<rparr>, ''B'' \<mapsto> \<lparr>count = 1, resetTime = 1200\<rparr>]"
    using reject_leaves_map [of 1000 2 _ "''A''" 300 s] r d by simp
  with r d show ?thesis by simp
qed

text \<open>
  C5: for a key without a counter, an evaluation creates the counter with count 1 and reset
  time \<open>now + windowMs\<close> and answers ADMIT; and a key that no request has carried yet has no
  counter: the map starts empty and requests of other keys create none for it.
\<close>

theorem first_request_creates_counter:
  "(requests key = None \<longrightarrow>
      rateLimit windowMs max' requests key now =
        Inr (ADMIT, requests(key \<mapsto> \<lparr>count = 1, resetTime = now + windowMs\<rparr>))) \<and>
   (key \<notin> fst ` set calls \<longrightarrow>
      (\<exists>ds s. serve windowMs max' Map.empty calls = Inr (ds, s) \<and> s key = None))"
proof (intro conjI impI)
  assume "requests key = None"
  then show "rateLimit windowMs max' requests key now =
      Inr (ADMIT, requests(key \<mapsto> \<lparr>count = 1, resetTime = now + windowMs\<rparr>))"
    by (rule rateLimit_absent)
next
  assume k: "key \<notin> fst ` set calls"
  obtain ds s where r: "serve windowMs max' Map.empty calls = Inr (ds, s)"
    using serve_returns by blast
  from serve_untouched [OF r k] have "s key = None" by simp
  with r show "\<exists>ds s. serve windowMs max' Map.empty calls = Inr (ds, s) \<and> s key = None"
    by blast
qed

theorem first_request_creates_counter_witness:
  "Map.empty ''A'' = (None :: WindowCounter option) \<and>
   rateLimit 1000 2 Map.empty ''A'' 0 = Inr (ADMIT, [''A'' \<mapsto> \<lparr>count = 1, resetTime = 1000\<rparr>]) \<and>
   ''A'' \<notin> fst ` set [(''B'', 200 :: int)] \<and>
   serve 1000 2 Map.empty [(''B'', 200)] =
     Inr ([ADMIT], [''B'' \<mapsto> \<lparr>count = 1, resetTime = 1200\<rparr>]) \<and>
   [''B'' \<mapsto> \<lparr>count = 1, resetTime = 1200\<rparr>] ''A'' = None"
proof -
  have e: "serve 1000 2 Map.empty [(''B'', 200)] =
      Inr ([ADMIT], [''B'' \<mapsto> \<lparr>count = 1, resetTime = 1200\<rparr>])"
    by (simp add: rateLimit_def has_def)
  from first_request_creates_counter [of Map.empty "''A''" 1000 2 0 "[(''B'', 200)]"] e
  show ?thesis by simp
qed

text \<open>
  C1, as amended: for a key that has a counter, an evaluation at a time strictly after the
  counter's reset time answers ADMIT and replaces the counter by a fresh one with count 1 and
  reset time \<open>now + windowMs\<close>. In the scenario with a window of 1000 ms and at most 2
  requests, after the requests of key A at 0, 100 and 200, the request at 1001 is admitted
  with count 1 and reset time 2001. (The source tests \<^verbatim>\<open>now > requestData.resetTime\<close>: at
  the reset time itself the old window still holds.)
\<close>

theorem expired_window_is_replaced:
  "(requests key = Some c \<and> now > resetTime c \<longrightarrow>
      rateLimit windowMs max' requests key now =
        Inr (ADMIT, requests(key \<mapsto> \<lparr>count = 1, resetTime = now + windowMs\<rparr>))) \<and>
   serve 1000 2 Map.empty [(''A'', 0), (''A'', 100), (''A'', 200), (''A'', 1001)] =
     Inr ([ADMIT, ADMIT, REJECT, ADMIT], [''A'' \<mapsto> \<lparr>count = 1, resetTime = 2001\<rparr>])"
proof (intro conjI impI)
  assume "requests key = Some c \<and> now > resetTime c"
  then show "rateLimit windowMs max' requests key now =
      Inr (ADMIT, requests(key \<mapsto> \<lparr>count = 1, resetTime = now + windowMs\<rparr>))"
    by (simp add: rateLimit_present)
next
  show "serve 1000 2 Map.empty [(''A'', 0), (''A'', 100), (''A'', 200), (''A'', 1001)] =
      Inr ([ADMIT, ADMIT, REJECT, ADMIT], [''A'' \<mapsto> \<lparr>count = 1, resetTime = 2001\<rparr>])"
    by (simp add: rateLimit_def has_def)
qed

theorem expired_window_is_replaced_witness:
  "[''A'' \<mapsto> \<lparr>count = 2, resetTime = 1000\<rparr>] ''A'' = Some \<lparr>count = 2, resetTime = 1000\<rparr> \<and>
   (1001 :: int) > resetTime \<lparr>count = 2, resetTime = 1000\<rparr> \<and>
   rateLimit 1000 2 [''A'' \<mapsto> \<lparr>count = 2, resetTime = 1000\<rparr>] ''A'' 1001 =
     Inr (ADMIT, [''A'' \<mapsto> \<lparr>count = 1, resetTime = 2001\<rparr>])"
  using expired_window_is_replaced
    [of "[''A'' \<mapsto> \<lparr>count = 2, resetTime = 1000\<rparr>]" "''A''"
        "\<lparr>count = 2, resetTime = 1000\<rparr>" 1001 1000 2]
  by simp

text \<open>
  The claim as the specification words it (reset already at \<open>now = resetTime\<close>) fails: in its
  own scenario the request of key A at 1000 meets the counter with count 2 and reset time
  1000, is rejected, and the counter stays as it is.
\<close>

theorem reset_at_boundary_counterexample:
  "serve 1000 2 Map.empty [(''A'', 0), (''A'', 100), (''A'', 200)] =
     Inr ([ADMIT, ADMIT, REJECT], [''A'' \<mapsto> \<lparr>count = 2, resetTime = 1000\<rparr>]) \<and>
   (1000 :: int) \<ge> resetTime \<lparr>count = 2, resetTime = 1000\<rparr> \<and>
   rateLimit 1000 2 [''A'' \<mapsto> \<lparr>count = 2, resetTime = 1000\<rparr>] ''A'' 1000 =
     Inr (REJECT, [''A'' \<mapsto> \<lparr>count = 2, resetTime = 1000\<rparr>]) \<and>
   rateLimit 1000 2 [''A'' \<mapsto> \<lparr>count = 2, resetTime = 1000\<rparr>] ''A'' 1000 \<noteq>
     Inr (ADMIT, [''A'' \<mapsto> \<lparr>count = 1, resetTime = 2000\<rparr>])"
  by (simp add: rateLimit_def has_def)

text \<open>
  C2: with a positive maximum and a positive window, starting from a map without a counter
  for key \<open>k\<close>, a sequence of \<open>max\<close> requests of \<open>k\<close> whose timestamps do not decrease and are
  all below the first timestamp plus the window (the reset time of the window) is admitted
  throughout; the counter then holds count \<open>max\<close>.
\<close>

theorem full_quota_is_admitted:
  assumes "0 < max'" and "0 < windowMs" and "requests k = None"
    and "int (length ts) = max'" and "sorted ts" and "\<forall>t\<in>set ts. t < hd ts + windowMs"
  shows "serve windowMs max' requests (map (Pair k) ts) =
     Inr (replicate (length ts) ADMIT,
          requests(k \<mapsto> \<lparr>count = max', resetTime = hd ts + windowMs\<rparr>))"
proof (cases ts)
  case Nil
  with assms show ?thesis by simp
next
  case (Cons t us)
  have b: "window_begins requests k t" using assms(3) by (simp add: window_begins_def)
  have w: "\<forall>u\<in>set us. u \<le> t + windowMs" using assms(6) Cons by auto
  have n: "1 + int (length us) \<le> max'" using assms(4) Cons by simp
  from serve_new_window [OF b w n] assms(4) Cons show ?thesis by simp
qed

theorem full_quota_is_admitted_witness:
  "(0 :: int) < 2 \<and> (0 :: int) < 1000 \<and> Map.empty ''A'' = (None :: WindowCounter option) \<and>
   int (length [0 :: int, 100]) = 2 \<and> sorted [0 :: int, 100] \<and>
   (0 :: int) < hd [0, 100] + 1000 \<and> (100 :: int) < hd [0, 100] + 1000 \<and>
   serve 1000 2 Map.empty [(''A'', 0), (''A'', 100)] =
     Inr ([ADMIT, ADMIT], [''A'' \<mapsto> \<lparr>count = 2, resetTime = 1000\<rparr>])"
  using full_quota_is_admitted
    [where max' = 2 and windowMs = 1000 and requests = Map.empty and k = "''A''"
       and ts = "[0, 100]"]
  by (simp add: numeral_2_eq_2)

text \<open>
  C3: once \<open>max\<close> requests of key \<open>k\<close> have been admitted in the current window (the first of
  them began the window, all of them came before its reset time), one more request of \<open>k\<close>
  before the reset time is rejected, and the counter stays at count \<open>max\<close>.
\<close>

theorem request_over_quota_is_rejected:
  assumes "0 < max'" and "window_begins requests k (hd ts)"
    and "int (length ts) = max'" and "\<forall>t\<in>set ts. t < hd ts + windowMs"
    and "t' < hd ts + windowMs"
  shows "serve windowMs max' requests (map (Pair k) (ts @ [t'])) =
     Inr (replicate (length ts) ADMIT @ [REJECT],
          requests(k \<mapsto> \<lparr>count = max', resetTime = hd ts + windowMs\<rparr>))"
proof (cases ts)
  case Nil
  with assms show ?thesis by simp
next
  case (Cons t us)
  have b: "window_begins requests k t" using assms(2) Cons by simp
  have w: "\<forall>u\<in>set us. u \<le> t + windowMs" using assms(4) Cons by auto
  have n: "1 + int (length us) \<le> max'" using assms(3) Cons by simp
  from serve_new_window [OF b w n] assms(3) Cons
  have 1: "serve windowMs max' requests (map (Pair k) ts) =
      Inr (replicate (length ts) ADMIT,
           requests(k \<mapsto> \<lparr>count = max', resetTime = t + windowMs\<rparr>))"
    by simp
  have 2: "serve windowMs max' (requests(k \<mapsto> \<lparr>count = max', resetTime = t + windowMs\<rparr>))
        (map (Pair k) [t']) =
      Inr (replicate (length [t']) REJECT,
           requests(k \<mapsto> \<lparr>count = max', resetTime = t + windowMs\<rparr>))"
    by (rule serve_full_window [where c = "\<lparr>count = max', resetTime = t + windowMs\<rparr>"])
       (use assms(5) Cons in auto)
  from serve_append [OF 1 2] Cons show ?thesis by simp
qed

theorem request_over_quota_is_rejected_witness:
  "(0 :: int) < 2 \<and> window_begins Map.empty ''A'' (hd [0, 100]) \<and>
   int (length [0 :: int, 100]) = 2 \<and>
   (0 :: int) < hd [0, 100] + 1000 \<and> (100 :: int) < hd [0, 100] + 1000 \<and>
   (200 :: int) < hd [0, 100] + 1000 \<and>
   serve 1000 2 Map.empty [(''A'', 0), (''A'', 100), (''A'', 200)] =
     Inr ([ADMIT, ADMIT, REJECT], [''A'' \<mapsto> \<lparr>count = 2, resetTime = 1000\<rparr>])"
  using request_over_quota_is_rejected
    [where max' = 2 and windowMs = 1000 and requests = Map.empty and k = "''A''"
       and ts = "[0, 100]" and t' = 200]
  by (simp add: numeral_2_eq_2 window_begins_def)

text \<open>
  C6: for two distinct keys \<open>k1\<close> and \<open>k2\<close>, an evaluation for \<open>k1\<close> leaves the counter of
  \<open>k2\<close> as it is, and the decisions given to the requests of \<open>k2\<close> in any sequence of
  requests, and the counter \<open>k2\<close> ends with, are those of the same sequence with every
  request of \<open>k1\<close> taken out: the history of \<open>k1\<close>, a used-up quota included, has no effect
  on \<open>k2\<close>.
\<close>

theorem distinct_keys_are_independent:
  assumes "k1 \<noteq> k2"
  shows "(rateLimit windowMs max' requests k1 now = Inr (d, requests') \<longrightarrow>
            requests' k2 = requests k2) \<and>
         (\<exists>ds s ds0 s0.
            serve windowMs max' requests calls = Inr (ds, s) \<and>
            serve windowMs max' requests (filter (\<lambda>c. fst c \<noteq> k1) calls) = Inr (ds0, s0) \<and>
            decisions_for k2 calls ds =
              decisions_for k2 (filter (\<lambda>c. fst c \<noteq> k1) calls) ds0 \<and>
            s k2 = s0 k2)"
proof (intro conjI impI)
  assume "rateLimit windowMs max' requests k1 now = Inr (d, requests')"
  from rateLimit_other_key [OF this] assms show "requests' k2 = requests k2" by simp
next
  obtain ds s where 1: "serve windowMs max' requests calls = Inr (ds, s)"
    using serve_returns by blast
  obtain ds0 s0 where
    2: "serve windowMs max' requests (filter (\<lambda>c. fst c \<noteq> k1) calls) = Inr (ds0, s0)"
    using serve_returns by blast
  have "\<forall>k. k \<noteq> k1 \<longrightarrow> requests k = requests k" by simp
  from serve_without [OF this 1 2] assms
  have "s k2 = s0 k2 \<and>
      decisions_for k2 calls ds = decisions_for k2 (filter (\<lambda>c. fst c \<noteq> k1) calls) ds0"
    by simp
  with 1 2 show "\<exists>ds s ds0 s0.
      serve windowMs max' requests calls = Inr (ds, s) \<and>
      serve windowMs max' requests (filter (\<lambda>c. fst c \<noteq> k1) calls) = Inr (ds0, s0) \<and>
      decisions_for k2 calls ds = decisions_for k2 (filter (\<lambda>c. fst c \<noteq> k1) calls) ds0 \<and>
      s k2 = s0 k2"
    by blast
qed

theorem distinct_keys_are_independent_witness:
  "''A'' \<noteq> ''B'' \<and>
   rateLimit 1000 2 [''B'' \<mapsto> \<lparr>count = 1, resetTime = 1200\<rparr>] ''A'' 300 =
     Inr (ADMIT, [''B'' \<mapsto> \<lparr>count = 1, resetTime = 1200\<rparr>, ''A'' \<mapsto> \<lparr>count = 1, resetTime = 1300\<rparr>]) \<and>
   [''B'' \<mapsto> \<lparr>count = 1, resetTime = 1200\<rparr>, ''A'' \<mapsto> \<lparr>count = 1, resetTime = 1300\<rparr>] ''B'' =
     [''B'' \<mapsto> \<lparr>count = 1, resetTime = 1200\<rparr>] ''B'' \<and>
   serve 1000 2 Map.empty [(''A'', 0), (''A'', 100), (''A'', 200), (''B'', 200)] =
     Inr ([ADMIT, ADMIT, REJECT, ADMIT],
          [''A'' \<mapsto> \<lparr>count = 2, resetTime = 1000\<rparr>, ''B'' \<mapsto> \<lparr>count = 1, resetTime = 1200\<rparr>]) \<and>
   serve 1000 2 Map.empty
       (filter (\<lambda>c. fst c \<noteq> ''A'') [(''A'', 0), (''A'', 100), (''A'', 200), (''B'', 200)]) =
     Inr ([ADMIT], [''B'' \<mapsto> \<lparr>count = 1, resetTime = 1200\<rparr>]) \<and>
   decisions_for ''B'' [(''A'', 0), (''A'', 100), (''A'', 200), (''B'', 200)]
       [ADMIT, ADMIT, REJECT, ADMIT] =
     decisions_for ''B''
       (filter (\<lambda>c. fst c \<noteq> ''A'') [(''A'', 0), (''A'', 100), (''A'', 200), (''B'', 200)]) [ADMIT]"
proof -
  have r: "rateLimit 1000 2 [''B'' \<mapsto> \<lparr>count = 1, resetTime = 1200\<rparr>] ''A'' 300 =
      Inr (ADMIT, [''B'' \<mapsto> \<lparr>count = 1, resetTime = 1200\<rparr>, ''A'' \<mapsto> \<lparr>count = 1, resetTime = 1300\<rparr>])"
    by (simp add: rateLimit_def has_def)
  have 1: "serve 1000 2 Map.empty [(''A'', 0), (''A'', 100), (''A'', 200), (''B'', 200)] =
      Inr ([ADMIT, ADMIT, REJECT, ADMIT],
           [''A'' \<mapsto> \<lparr>count = 2, resetTime = 1000\<rparr>, ''B'' \<mapsto> \<lparr>count = 1, resetTime = 1200\<rparr>])"
    by (simp add: rateLimit_def has_def)
  have 2: "serve 1000 2 Map.empty
        (filter (\<lambda>c. fst c \<noteq> ''A'') [(''A'', 0), (''A'', 100), (''A'', 200), (''B'', 200)]) =
      Inr ([ADMIT], [''B'' \<mapsto> \<lparr>count = 1, resetTime = 1200\<rparr>])"
    by (simp add: rateLimit_def has_def)
  have ne: "''A'' \<noteq> ''B''" by simp
  from distinct_keys_are_independent
    [OF ne, of 1000 2 "[''B'' \<mapsto> \<lparr>count = 1, resetTime = 1200\<rparr>]" 300 ADMIT
       "[''B'' \<mapsto> \<lparr>count = 1, resetTime = 1200\<rparr>, ''A'' \<mapsto> \<lparr>count = 1, resetTime = 1300\<rparr>]"]
    r
  have a: "[''B'' \<mapsto> \<lparr>count = 1, resetTime = 1200\<rparr>, ''A'' \<mapsto> \<lparr>count = 1, resetTime = 1300\<rparr>] ''B'' =
      [''B'' \<mapsto> \<lparr>count = 1, resetTime = 1200\<rparr>] ''B''"
    by blast
  from distinct_keys_are_independent
    [OF ne, of 1000 2 Map.empty 0 ADMIT Map.empty
       "[(''A'', 0), (''A'', 100), (''A'', 200), (''B'', 200)]"]
  have b: "decisions_for ''B'' [(''A'', 0), (''A'', 100), (''A'', 200), (''B'', 200)]
        [ADMIT, ADMIT, REJECT, ADMIT] =
      decisions_for ''B''
        (filter (\<lambda>c. fst c \<noteq> ''A'') [(''A'', 0), (''A'', 100), (''A'', 200), (''B'', 200)]) [ADMIT]"
    unfolding 1 2 by blast
  from ne r a 1 2 b show ?thesis by blast
qed

text \<open>
  C10: with a maximum of at least 1, in every state reached from the empty map by any
  sequence of requests, every stored counter has a count of at least 1 and at most the
  maximum.
\<close>

theorem count_stays_in_bounds:
  assumes "1 \<le> max'"
  shows "\<exists>ds s. serve windowMs max' Map.empty calls = Inr (ds, s) \<and>
           (\<forall>k c. s k = Some c \<longrightarrow> 1 \<le> count c \<and> count c \<le> max')"
proof -
  obtain ds s where r: "serve windowMs max' Map.empty calls = Inr (ds, s)"
    using serve_returns by blast
  have "counts_bounded max' Map.empty" by (simp add: counts_bounded_def)
  from serve_keeps_bounds [OF assms this r] have "counts_bounded max' s" .
  with r show ?thesis unfolding counts_bounded_def by blast
qed

theorem count_stays_in_bounds_witness:
  "(1 :: int) \<le> 2 \<and>
   serve 1000 2 Map.empty [(''A'', 0), (''A'', 100), (''A'', 200), (''B'', 200)] =
     Inr ([ADMIT, ADMIT, REJECT, ADMIT],
          [''A'' \<mapsto> \<lparr>count = 2, resetTime = 1000\<rparr>, ''B'' \<mapsto> \<lparr>count = 1, resetTime = 1200\<rparr>]) \<and>
   [''A'' \<mapsto> \<lparr>count = 2, resetTime = 1000\<rparr>, ''B'' \<mapsto> \<lparr>count = 1, resetTime = 1200\<rparr>] ''A'' =
     Some \<lparr>count = 2, resetTime = 1000\<rparr> \<and>
   1 \<le> count \<lparr>count = 2, resetTime = 1000\<rparr> \<and> count \<lparr>count = 2, resetTime = 1000\<rparr> \<le> 2"
proof -
  have 1: "serve 1000 2 Map.empty [(''A'', 0), (''A'', 100), (''A'', 200), (''B'', 200)] =
      Inr ([ADMIT, ADMIT, REJECT, ADMIT],
           [''A'' \<mapsto> \<lparr>count = 2, resetTime = 1000\<rparr>, ''B'' \<mapsto> \<lparr>count = 1, resetTime = 1200\<rparr>])"
    by (simp add: rateLimit_def has_def)
  have 2: "[''A'' \<mapsto> \<lparr>count = 2, resetTime = 1000\<rparr>, ''B'' \<mapsto> \<lparr>count = 1, resetTime = 1200\<rparr>] ''A'' =
      Some \<lparr>count = 2, resetTime = 1000\<rparr>"
    by simp
  have le: "(1 :: int) \<le> 2" by simp
  from count_stays_in_bounds
    [OF le, of 1000 "[(''A'', 0), (''A'', 100), (''A'', 200), (''B'', 200)]"]
  have "\<forall>k c. [''A'' \<mapsto> \<lparr>count = 2, resetTime = 1000\<rparr>, ''B'' \<mapsto> \<lparr>count = 1, resetTime = 1200\<rparr>] k = Some c
      \<longrightarrow> 1 \<le> count c \<and> count c \<le> 2"
    unfolding 1 by blast
  with 2 have "1 \<le> count \<lparr>count = 2, resetTime = 1000\<rparr> \<and> count \<lparr>count = 2, resetTime = 1000\<rparr> \<le> 2"
    by blast
  with le 1 2 show ?thesis by blast
qed

text \<open>
  C8: an evaluation is not idempotent. With a positive window and a positive maximum, every
  admitted call changes the map (it creates, resets or increments the counter of its key;
  only a rejected call leaves the map alone, see C4), and there is a reachable state with a
  key and a clock reading at which two consecutive identical calls get different decisions:
  the first is admitted, the second rejected.
\<close>

theorem check_is_not_idempotent:
  assumes "0 < windowMs" and "0 < max'"
  shows "(rateLimit windowMs max' requests key now = Inr (ADMIT, requests') \<longrightarrow>
            requests' \<noteq> requests) \<and>
         (\<exists>calls ds s k t s1 s2.
            serve windowMs max' Map.empty calls = Inr (ds, s) \<and>
            rateLimit windowMs max' s k t = Inr (ADMIT, s1) \<and>
            rateLimit windowMs max' s1 k t = Inr (REJECT, s2))"
proof (intro conjI impI)
  assume "rateLimit windowMs max' requests key now = Inr (ADMIT, requests')"
  from admit_changes_map [OF assms(1) this] show "requests' \<noteq> requests" by auto
next
  let ?full = "\<lparr>count = max', resetTime = windowMs\<rparr>"
  have "\<exists>calls ds s. serve windowMs max' Map.empty calls = Inr (ds, s) \<and>
      rateLimit windowMs max' s ''A'' 0 = Inr (ADMIT, [''A'' \<mapsto> ?full])"
  proof (cases "max' = 1")
    case True
    have "serve windowMs max' Map.empty [] = Inr ([], Map.empty)" by simp
    moreover have "rateLimit windowMs max' Map.empty ''A'' 0 = Inr (ADMIT, [''A'' \<mapsto> ?full])"
      using True by (simp add: rateLimit_absent)
    ultimately show ?thesis by blast
  next
    case False
    define n where "n = nat (max' - 2)"
    from False assms(2) have n: "max' = 2 + int n" unfolding n_def by arith
    have b: "window_begins Map.empty ''A'' 0" by (simp add: window_begins_def)
    have w: "\<forall>u\<in>set (replicate n (0 :: int)). u \<le> 0 + windowMs" using assms(1) by simp
    have le: "1 + int (length (replicate n (0 :: int))) \<le> max'" using n by simp
    from serve_new_window [OF b w le]
    have run: "serve windowMs max' Map.empty (map (Pair ''A'') (0 # replicate n 0)) =
        Inr (replicate (Suc n) ADMIT, [''A'' \<mapsto> \<lparr>count = 1 + int n, resetTime = windowMs\<rparr>])"
      by simp
    have "rateLimit windowMs max' [''A'' \<mapsto> \<lparr>count = 1 + int n, resetTime = windowMs\<rparr>] ''A'' 0 =
        Inr (ADMIT, [''A'' \<mapsto> ?full])"
      using assms(1) n by (simp add: rateLimit_present)
    with run show ?thesis by blast
  qed
  moreover have "rateLimit windowMs max' [''A'' \<mapsto> ?full] ''A'' 0 = Inr (REJECT, [''A'' \<mapsto> ?full])"
    using assms(1) by (simp add: rateLimit_present)
  ultimately show "\<exists>calls ds s k t s1 s2.
      serve windowMs max' Map.empty calls = Inr (ds, s) \<and>
      rateLimit windowMs max' s k t = Inr (ADMIT, s1) \<and>
      rateLimit windowMs max' s1 k t = Inr (REJECT, s2)"
    by blast
qed

theorem check_is_not_idempotent_witness:
  "(0 :: int) < 1000 \<and> (0 :: int) < 2 \<and>
   serve 1000 2 Map.empty [(''A'', 0)] = Inr ([ADMIT], [''A'' \<mapsto> \<lparr>count = 1, resetTime = 1000\<rparr>]) \<and>
   rateLimit 1000 2 [''A'' \<mapsto> \<lparr>count = 1, resetTime = 1000\<rparr>] ''A'' 100 =
     Inr (ADMIT, [''A'' \<mapsto> \<lparr>count = 2, resetTime = 1000\<rparr>]) \<and>
   [''A'' \<mapsto> \<lparr>count = 2, resetTime = 1000\<rparr>] \<noteq> [''A'' \<mapsto> \<lparr>count = 1, resetTime = 1000\<rparr>] \<and>
   rateLimit 1000 2 [''A'' \<mapsto> \<lparr>count = 2, resetTime = 1000\<rparr>] ''A'' 100 =
     Inr (REJECT, [''A'' \<mapsto> \<lparr>count = 2, resetTime = 1000\<rparr>])"
proof -
  have w: "(0 :: int) < 1000" and m: "(0 :: int) < 2" by simp_all
  have 0: "serve 1000 2 Map.empty [(''A'', 0)] =
      Inr ([ADMIT], [''A'' \<mapsto> \<lparr>count = 1, resetTime = 1000\<rparr>])"
    by (simp add: rateLimit_def has_def)
  have 1: "rateLimit 1000 2 [''A'' \<mapsto> \<lparr>count = 1, resetTime = 1000\<rparr>] ''A'' 100 =
      Inr (ADMIT, [''A'' \<mapsto> \<lparr>count = 2, resetTime = 1000\<rparr>])"
    by (simp add: rateLimit_def has_def)
  have 2: "rateLimit 1000 2 [''A'' \<mapsto> \<lparr>count = 2, resetTime = 1000\<rparr>] ''A'' 100 =
      Inr (REJECT, [''A'' \<mapsto> \<lparr>count = 2, resetTime = 1000\<rparr>])"
    by (simp add: rateLimit_def has_def)
  from check_is_not_idempotent
    [OF w m, of "[''A'' \<mapsto> \<lparr>count = 1, resetTime = 1000\<rparr>]" "''A''" 100
       "[''A'' \<mapsto> \<lparr>count = 2, resetTime = 1000\<rparr>]"] 1
  have "[''A'' \<mapsto> \<lparr>count = 2, resetTime = 1000\<rparr>] \<noteq> [''A'' \<mapsto> \<lparr>count = 1, resetTime = 1000\<rparr>]"
    by blast
  with w m 0 1 2 show ?thesis by blast
qed

text \<open>
  C7, as amended: with a positive window and a positive maximum, for every key and every
  sequence of requests with non-decreasing timestamps served from the empty map, every
  interval of \<open>windowMs\<close> milliseconds (taken closed, from \<open>a\<close> to \<open>a + windowMs\<close>; every
  half-open one lies inside) holds at most \<open>2 * max - 1\<close> admitted requests of the key, and
  some such sequence has an interval across the seam of two windows with exactly
  \<open>2 * max - 1\<close> of them. (A window begins with its first admitted request and the next
  window begins more than \<open>windowMs\<close> later, so no interval holds both the whole quota of one
  window and a request of the next.)
\<close>

theorem seam_burst_bound:
  assumes "0 < windowMs" and "0 < max'" and "sorted (map snd calls)"
  shows "(\<exists>ds s. serve windowMs max' Map.empty calls = Inr (ds, s) \<and>
            int (in_interval a windowMs (admitted k calls ds)) \<le> 2 * max' - 1) \<and>
         (\<exists>calls' ds' s' k' a'.
            sorted (map snd calls') \<and> serve windowMs max' Map.empty calls' = Inr (ds', s') \<and>
            int (in_interval a' windowMs (admitted k' calls' ds')) = 2 * max' - 1)"
proof
  from assms have w: "0 \<le> windowMs" and m: "1 \<le> max'" by simp_all
  obtain ds s where r: "serve windowMs max' Map.empty calls = Inr (ds, s)"
    using serve_returns by blast
  from seam_bound [OF w m assms(3) r]
  have "int (in_interval a windowMs (admitted k calls ds)) \<le> 2 * max' - 1" .
  with r show "\<exists>ds s. serve windowMs max' Map.empty calls = Inr (ds, s) \<and>
      int (in_interval a windowMs (admitted k calls ds)) \<le> 2 * max' - 1"
    by blast
next
  from assms(2) have m: "1 \<le> max'" by simp
  from seam_attained [OF assms(1) m]
  show "\<exists>calls' ds' s' k' a'.
      sorted (map snd calls') \<and> serve windowMs max' Map.empty calls' = Inr (ds', s') \<and>
      int (in_interval a' windowMs (admitted k' calls' ds')) = 2 * max' - 1"
    by blast
qed

theorem seam_burst_bound_witness:
  "(0 :: int) < 1000 \<and> (0 :: int) < 2 \<and>
   sorted (map snd [(''A'', 0 :: int), (''A'', 1000), (''A'', 1001), (''A'', 1001)]) \<and>
   serve 1000 2 Map.empty [(''A'', 0), (''A'', 1000), (''A'', 1001), (''A'', 1001)] =
     Inr ([ADMIT, ADMIT, ADMIT, ADMIT], [''A'' \<mapsto> \<lparr>count = 2, resetTime = 2001\<rparr>]) \<and>
   int (in_interval 1000 1000
         (admitted ''A'' [(''A'', 0), (''A'', 1000), (''A'', 1001), (''A'', 1001)]
            [ADMIT, ADMIT, ADMIT, ADMIT])) \<le> 2 * 2 - 1 \<and>
   in_interval 1000 1000
     (admitted ''A'' [(''A'', 0), (''A'', 1000), (''A'', 1001), (''A'', 1001)]
        [ADMIT, ADMIT, ADMIT, ADMIT]) = 3"
proof -
  have w: "(0 :: int) < 1000" and m: "(0 :: int) < 2" by simp_all
  have srt: "sorted (map snd [(''A'', 0 :: int), (''A'', 1000), (''A'', 1001), (''A'', 1001)])"
    by simp
  have run: "serve 1000 2 Map.empty [(''A'', 0), (''A'', 1000), (''A'', 1001), (''A'', 1001)] =
      Inr ([ADMIT, ADMIT, ADMIT, ADMIT], [''A'' \<mapsto> \<lparr>count = 2, resetTime = 2001\<rparr>])"
    by (simp add: rateLimit_def has_def)
  from seam_burst_bound [OF w m srt, of 1000 "''A''"]
  have le: "int (in_interval 1000 1000
        (admitted ''A'' [(''A'', 0), (''A'', 1000), (''A'', 1001), (''A'', 1001)]
           [ADMIT, ADMIT, ADMIT, ADMIT])) \<le> 2 * 2 - 1"
    unfolding run by blast
  have eq: "in_interval 1000 1000
      (admitted ''A'' [(''A'', 0), (''A'', 1000), (''A'', 1001), (''A'', 1001)]
         [ADMIT, ADMIT, ADMIT, ADMIT]) = 3"
    by (simp add: in_interval_def)
  from w m srt run le eq show ?thesis by blast
qed

text \<open>
  The claim as the specification words it fails in its second half: with a window of 1000 ms
  and at most 2 requests, no sequence of requests with non-decreasing timestamps has an
  interval of 1000 ms holding \<open>2 * 2\<close> admitted requests of one key.
\<close>

theorem seam_burst_counterexample:
  "\<not> (\<exists>calls ds s k a.
        sorted (map snd calls) \<and> serve 1000 2 Map.empty calls = Inr (ds, s) \<and>
        int (in_interval a 1000 (admitted k calls ds)) = 2 * 2)"
proof
  assume "\<exists>calls ds s k a.
      sorted (map snd calls) \<and> serve 1000 2 Map.empty calls = Inr (ds, s) \<and>
      int (in_interval a 1000 (admitted k calls ds)) = 2 * 2"
  then obtain calls ds s k a where
    srt: "sorted (map snd calls)" and run: "serve 1000 2 Map.empty calls = Inr (ds, s)" and
    four: "int (in_interval a 1000 (admitted k calls ds)) = 2 * 2"
    by blast
  have "int (in_interval a 1000 (admitted k calls ds)) \<le> 2 * 2 - 1"
    by (rule seam_bound [OF _ _ srt run]) simp_all
  with four show False by simp
qed

end
